theory Spec2Isabelle
  imports Main "HOL-Library.Sublist"
begin

section \<open>Strings and character classes\<close>

text \<open>
  A Python \<open>str\<close> is modelled as a \<open>string\<close>; a \<open>char\<close> stands for the code point of the
  same number (code points below 256). The three classes are the ones that \<open>re\<close> uses for
  \<open>\d\<close>, \<open>\s\<close> and \<open>\w\<close> on \<open>str\<close> patterns, restricted to these code points; \<open>str.strip()\<close>
  removes exactly the \<open>\s\<close> characters.
\<close>

definition is_digit :: "char \<Rightarrow> bool" where
  "is_digit c = (let n = (of_char c :: nat) in 48 \<le> n \<and> n \<le> 57)"

definition is_space :: "char \<Rightarrow> bool" where
  "is_space c = (let n = (of_char c :: nat) in
     (9 \<le> n \<and> n \<le> 13) \<or> (28 \<le> n \<and> n \<le> 32) \<or> n = 133 \<or> n = 160)"

definition is_word :: "char \<Rightarrow> bool" where
  "is_word c = (let n = (of_char c :: nat) in
     (48 \<le> n \<and> n \<le> 57) \<or> (65 \<le> n \<and> n \<le> 90) \<or> n = 95 \<or> (97 \<le> n \<and> n \<le> 122) \<or>
     n = 170 \<or> n = 178 \<or> n = 179 \<or> n = 181 \<or> n = 185 \<or> n = 186 \<or>
     (188 \<le> n \<and> n \<le> 190) \<or> (192 \<le> n \<and> n \<le> 214) \<or> (216 \<le> n \<and> n \<le> 246) \<or>
     (248 \<le> n \<and> n \<le> 255))"

text \<open>\<open>s.strip()\<close>, \<open>s.replace('\n', ' ')\<close>, \<open>sep in s\<close>, \<open>s.split(sep, 1)\<close> and \<open>xs[i]\<close>.\<close>

definition py_strip :: "string \<Rightarrow> string" where
  "py_strip s = rev (dropWhile is_space (rev (dropWhile is_space s)))"

definition replace_nl :: "string \<Rightarrow> string" where
  "replace_nl s = map (\<lambda>c. if c = CHR 0x0A then CHR '' '' else c) s"

fun py_in :: "string \<Rightarrow> string \<Rightarrow> bool" where
  "py_in sep [] = (sep = [])"
| "py_in sep (c # s) = (prefix sep (c # s) \<or> py_in sep s)"

text \<open>
  The text before and the text after the leftmost occurrence of a non-empty separator.
\<close>

fun split_at_first :: "string \<Rightarrow> string \<Rightarrow> (string \<times> string) option" where
  "split_at_first sep [] = None"
| "split_at_first sep (c # s) =
     (if prefix sep (c # s) then Some ([], drop (length sep) (c # s))
      else map_option (\<lambda>(a, b). (c # a, b)) (split_at_first sep s))"

definition py_split1 :: "string \<Rightarrow> string \<Rightarrow> string list" where
  "py_split1 sep s = (case split_at_first sep s of None \<Rightarrow> [s] | Some (a, b) \<Rightarrow> [a, b])"

datatype exn = RequestException | AttributeError | IndexError

definition py_index :: "'a list \<Rightarrow> nat \<Rightarrow> exn + 'a" where
  "py_index xs i = (if i < length xs then Inr (xs ! i) else Inl IndexError)"

section \<open>Regular expressions: \<open>re.search\<close>\<close>

text \<open>
  The two patterns of the program use literals, the classes \<open>\d\<close>, \<open>\s\<close>, \<open>\w\<close>, sequence,
  the greedy quantifiers \<open>?\<close>, \<open>*\<close>, \<open>+\<close>, \<open>{4}\<close>, \<open>{4,}\<close> and capturing groups. \<open>ms r (s, g)\<close>
  lists, in the order in which a backtracking matcher tries them, the ways in which \<open>r\<close>
  matches a prefix of \<open>s\<close>: each is the rest of the input with the groups captured so far.
  The first entry is the match that \<open>re\<close> reports. (An iteration of \<open>*\<close> that consumes nothing
  is not repeated; the bodies of \<open>*\<close> in this program always consume a character.)
\<close>

datatype cls = Chr char | Digit | Space | Wordc

fun in_cls :: "cls \<Rightarrow> char \<Rightarrow> bool" where
  "in_cls (Chr a) c = (c = a)"
| "in_cls Digit c = is_digit c"
| "in_cls Space c = is_space c"
| "in_cls Wordc c = is_word c"

datatype rx = Eps | Atom cls | Cat rx rx | Opt rx | Star rx | Grp nat rx

type_synonym groups = "nat \<rightharpoonup> string"
type_synonym mstate = "string \<times> groups"

fun ms :: "rx \<Rightarrow> mstate \<Rightarrow> mstate list" where
  "ms Eps st = [st]"
| "ms (Atom c) (s, g) = (case s of [] \<Rightarrow> [] | x # xs \<Rightarrow> if in_cls c x then [(xs, g)] else [])"
| "ms (Cat a b) st = concat (map (ms b) (ms a st))"
| "ms (Opt a) st = ms a st @ [st]"
| "ms (Star a) (s, g) =
     concat (map (\<lambda>(s', g'). if length s' < length s then ms (Star a) (s', g') else [])
                 (ms a (s, g))) @ [(s, g)]"
| "ms (Grp n a) (s, g) =
     map (\<lambda>(s', g'). (s', g'(n \<mapsto> take (length s - length s') s))) (ms a (s, g))"

fun lit :: "string \<Rightarrow> rx" where
  "lit [] = Eps"
| "lit (c # cs) = Cat (Atom (Chr c)) (lit cs)"

fun rep :: "nat \<Rightarrow> rx \<Rightarrow> rx" where
  "rep 0 r = Eps"
| "rep (Suc n) r = Cat r (rep n r)"

definition plus_rx :: "rx \<Rightarrow> rx" where
  "plus_rx r = Cat r (Star r)"

text \<open>
  \<open>re.search\<close>: the first match at the leftmost position that has one; the result is the
  matched text (\<open>group()\<close>) with the captured groups.
\<close>

fun re_search :: "rx \<Rightarrow> string \<Rightarrow> (string \<times> groups) option" where
  "re_search r s =
     (case ms r (s, Map.empty) of
        (s', g) # _ \<Rightarrow> Some (take (length s - length s') s, g)
      | [] \<Rightarrow> (case s of [] \<Rightarrow> None | _ # t \<Rightarrow> re_search r t))"

text \<open>\<open>CVE-\d{4}-\d{4,}\<close>\<close>

definition cve_rx :: rx where
  "cve_rx = Cat (lit ''CVE-'') (Cat (rep 4 (Atom Digit)) (Cat (lit ''-'')
              (Cat (rep 4 (Atom Digit)) (Star (Atom Digit)))))"

text \<open>\<open>Severity:\s*(\d+(\.\d+)?)\s*\|\s*(\w+)\<close>\<close>

definition severity_rx :: rx where
  "severity_rx =
     Cat (lit ''Severity:'') (Cat (Star (Atom Space))
       (Cat (Grp 1 (Cat (plus_rx (Atom Digit))
                        (Opt (Grp 2 (Cat (lit ''.'') (plus_rx (Atom Digit)))))))
         (Cat (Star (Atom Space)) (Cat (lit ''|'') (Cat (Star (Atom Space))
           (Grp 3 (plus_rx (Atom Wordc))))))))"

section \<open>Parsed documents\<close>

text \<open>
  A response body is modelled as the tree that \<open>BeautifulSoup\<close> builds from it: text
  nodes, comments (and the other strings that are not text: declarations, processing
  instructions) and tags with a name and children. The functions are the ones the program
  calls on it: \<open>.text\<close>, which leaves the comments out; \<open>.string\<close>, the string of a tag whose only
  child is a string (a comment too) or a tag that has one; \<open>find_all(name)\<close>, \<open>find(name)\<close>,
  \<open>find(name, string=...)\<close> (all in document order over the descendants) and
  \<open>find_next_sibling(name)\<close>. A search returns the tag found together with the siblings that
  follow it.
\<close>

datatype node = Text string | Comment string | Tag string "node list"

fun get_text :: "node \<Rightarrow> string" where
  "get_text (Text s) = s"
| "get_text (Comment s) = []"
| "get_text (Tag n cs) = concat (map get_text cs)"

fun node_string :: "node \<Rightarrow> string option" where
  "node_string (Text s) = Some s"
| "node_string (Comment s) = Some s"
| "node_string (Tag n [c]) = node_string c"
| "node_string (Tag n cs) = None"

fun children :: "node \<Rightarrow> node list" where
  "children (Text s) = []"
| "children (Comment s) = []"
| "children (Tag n cs) = cs"

fun has_name :: "string \<Rightarrow> node \<Rightarrow> bool" where
  "has_name nm (Text s) = False"
| "has_name nm (Comment s) = False"
| "has_name nm (Tag n cs) = (n = nm)"

fun find_all :: "string \<Rightarrow> node list \<Rightarrow> node list" where
  "find_all nm [] = []"
| "find_all nm (Text s # ns) = find_all nm ns"
| "find_all nm (Comment s # ns) = find_all nm ns"
| "find_all nm (Tag n cs # ns) =
     (if n = nm then [Tag n cs] else []) @ find_all nm cs @ find_all nm ns"

fun find_first :: "(node \<Rightarrow> bool) \<Rightarrow> node list \<Rightarrow> (node \<times> node list) option" where
  "find_first P [] = None"
| "find_first P (Text s # ns) = find_first P ns"
| "find_first P (Comment s # ns) = find_first P ns"
| "find_first P (Tag n cs # ns) =
     (if P (Tag n cs) then Some (Tag n cs, ns)
      else case find_first P cs of Some r \<Rightarrow> Some r | None \<Rightarrow> find_first P ns)"

fun find_next_sibling :: "string \<Rightarrow> node list \<Rightarrow> node option" where
  "find_next_sibling nm [] = None"
| "find_next_sibling nm (Text s # ns) = find_next_sibling nm ns"
| "find_next_sibling nm (Comment s # ns) = find_next_sibling nm ns"
| "find_next_sibling nm (Tag n cs # ns) =
     (if n = nm then Some (Tag n cs) else find_next_sibling nm ns)"

text \<open>\<open>item.find(nm).text\<close>: an \<open>AttributeError\<close> when \<open>find\<close> returns \<open>None\<close>.\<close>

definition find_text :: "string \<Rightarrow> node \<Rightarrow> exn + string" where
  "find_text nm item =
     (case find_first (has_name nm) (children item) of
        None \<Rightarrow> Inl AttributeError
      | Some (t, sibs) \<Rightarrow> Inr (get_text t))"

text \<open>\<open>find('td', string='Description')\<close>\<close>

definition is_description_cell :: "node \<Rightarrow> bool" where
  "is_description_cell t = (has_name ''td'' t \<and> node_string t = Some ''Description'')"

section \<open>The world: table, output, network\<close>

record cve_record =
  cve_number :: string
  cve_name :: string
  cve_description :: string
  cve_pubdate :: string
  cve_link :: string
  cve_severity :: "string option"

datatype sql_error = IntegrityError | OperationalError

datatype event =
    ErrConnect
  | TableReady
  | ErrCreate
  | Inserted string
  | ErrInsert sql_error
  | ErrExists
  | Skipping string
  | Processed string
  | ErrFeed
  | ErrUnexpected exn

datatype http_result = NetworkError | Response nat "node list"

text \<open>
  The state of a run. \<open>table\<close> is the table \<open>ca_cve\<close> of the database file, its rows in
  insertion order (\<open>None\<close>: the table has not been created); \<open>out\<close> is what has been printed;
  \<open>requests\<close> lists the URLs fetched; \<open>clock\<close> counts the calls made to the outside (database
  and network).
\<close>

record world =
  table :: "cve_record list option"
  out :: "event list"
  requests :: "string list"
  clock :: nat

text \<open>
  What the outside answers at each call: \<open>http t url\<close> is the outcome of a \<open>GET\<close> made as
  call number \<open>t\<close> (no response, or a status with the document sent), \<open>db_ok t\<close> tells whether
  the database call number \<open>t\<close> (a connect, a statement, a commit) goes through. \<open>unescape\<close>
  stands for \<open>html.unescape\<close>.
\<close>

record env =
  http :: "nat \<Rightarrow> string \<Rightarrow> http_result"
  db_ok :: "nat \<Rightarrow> bool"
  unescape :: "string \<Rightarrow> string"

definition tick :: "world \<Rightarrow> world" where
  "tick w = w\<lparr>clock := Suc (clock w)\<rparr>"

definition print :: "event \<Rightarrow> world \<Rightarrow> world" where
  "print ev w = w\<lparr>out := out w @ [ev]\<rparr>"

section \<open>The record store\<close>

definition get_db_connection :: "env \<Rightarrow> world \<Rightarrow> bool \<times> world" where
  "get_db_connection e w =
     (if db_ok e (clock w) then (True, tick w) else (False, print ErrConnect (tick w)))"

text \<open>\<open>CREATE TABLE IF NOT EXISTS ca_cve (cve_number TEXT PRIMARY KEY, ...)\<close>\<close>

definition create_cve_table :: "env \<Rightarrow> world \<Rightarrow> bool \<times> world" where
  "create_cve_table e w =
     (case get_db_connection e w of
        (False, w1) \<Rightarrow> (False, w1)
      | (True, w1) \<Rightarrow>
          if db_ok e (clock w1)
          then (True, print TableReady
                  ((tick w1)\<lparr>table := Some (case table w1 of None \<Rightarrow> [] | Some rows \<Rightarrow> rows)\<rparr>))
          else (False, print ErrCreate (tick w1)))"

text \<open>
  \<open>INSERT INTO ca_cve ... VALUES (...)\<close> inside \<open>with conn:\<close>. The statement fails on a
  missing table and on a row with the same \<open>cve_number\<close> (the primary key); the commit that
  ends the \<open>with\<close> block comes after the \<open>print\<close> and may fail too. Every \<open>sqlite3.Error\<close> is
  caught and gives \<open>False\<close>.
\<close>

definition insert_cve_to_db :: "env \<Rightarrow> cve_record \<Rightarrow> world \<Rightarrow> bool \<times> world" where
  "insert_cve_to_db e d w =
     (case get_db_connection e w of
        (False, w1) \<Rightarrow> (False, w1)
      | (True, w1) \<Rightarrow>
          if \<not> db_ok e (clock w1) then (False, print (ErrInsert OperationalError) (tick w1))
          else (case table w1 of
                  None \<Rightarrow> (False, print (ErrInsert OperationalError) (tick w1))
                | Some rows \<Rightarrow>
                    if cve_number d \<in> set (map cve_number rows)
                    then (False, print (ErrInsert IntegrityError) (tick w1))
                    else let w2 = print (Inserted (cve_number d)) (tick w1) in
                         if db_ok e (clock w2)
                         then (True, (tick w2)\<lparr>table := Some (rows @ [d])\<rparr>)
                         else (False, print (ErrInsert OperationalError) (tick w2))))"

text \<open>\<open>SELECT 1 FROM ca_cve WHERE cve_number = ?\<close>; every failure of the check gives \<open>False\<close>.\<close>

definition cve_exists :: "env \<Rightarrow> string \<Rightarrow> world \<Rightarrow> bool \<times> world" where
  "cve_exists e n w =
     (case get_db_connection e w of
        (False, w1) \<Rightarrow> (False, w1)
      | (True, w1) \<Rightarrow>
          if \<not> db_ok e (clock w1) then (False, print ErrExists (tick w1))
          else (case table w1 of
                  None \<Rightarrow> (False, print ErrExists (tick w1))
                | Some rows \<Rightarrow> (n \<in> set (map cve_number rows), tick w1)))"

section \<open>Field extraction\<close>

definition cve_number_of :: "string \<Rightarrow> string" where
  "cve_number_of title =
     (case re_search cve_rx title of Some (m, g) \<Rightarrow> m | None \<Rightarrow> ''N/A'')"

definition clean_description_of :: "env \<Rightarrow> node list \<Rightarrow> exn + string" where
  "clean_description_of e page =
     (case find_first is_description_cell page of
        Some (cell, sibs) \<Rightarrow>
          (case find_next_sibling ''td'' sibs of
             None \<Rightarrow> Inl AttributeError
           | Some sib \<Rightarrow>
               Inr (py_strip (replace_nl (unescape e (py_strip (get_text sib))))))
      | None \<Rightarrow> Inr ''Description not available.'')"

definition severity_of :: "string \<Rightarrow> string option" where
  "severity_of clean_description =
     (case re_search severity_rx clean_description of Some (m, g) \<Rightarrow> g 1 | None \<Rightarrow> None)"

definition cve_name_of :: "string \<Rightarrow> exn + string" where
  "cve_name_of title =
     (if py_in ''- '' title then py_index (py_split1 ''- '' title) 1 else Inr ''N/A'')"

text \<open>Lines 122 to 139: from the entry's fields and the detail page to \<open>cve_details\<close>.\<close>

definition cve_details_of ::
  "env \<Rightarrow> string \<Rightarrow> string \<Rightarrow> string \<Rightarrow> string \<Rightarrow> node list \<Rightarrow> exn + cve_record" where
  "cve_details_of e title link pub_date number page =
     (case clean_description_of e page of
        Inl x \<Rightarrow> Inl x
      | Inr clean_description \<Rightarrow>
          (case cve_name_of title of
             Inl x \<Rightarrow> Inl x
           | Inr name \<Rightarrow>
               Inr \<lparr>cve_number = number, cve_name = name,
                    cve_description = clean_description, cve_pubdate = pub_date,
                    cve_link = link, cve_severity = severity_of clean_description\<rparr>))"

section \<open>The pipeline\<close>

definition feed_url :: string where
  "feed_url = ''https://cvefeed.io/rssfeed/severity/high.xml''"

definition requests_get :: "env \<Rightarrow> string \<Rightarrow> world \<Rightarrow> (exn + nat \<times> node list) \<times> world" where
  "requests_get e url w =
     (let w1 = (tick w)\<lparr>requests := requests w @ [url]\<rparr> in
      case http e (clock w) url of
        NetworkError \<Rightarrow> (Inl RequestException, w1)
      | Response status doc \<Rightarrow> (Inr (status, doc), w1))"

text \<open>\<open>raise_for_status\<close> raises an \<open>HTTPError\<close>, a \<open>RequestException\<close>, on a status 4xx or 5xx.\<close>

definition raise_for_status :: "nat \<Rightarrow> exn + unit" where
  "raise_for_status status =
     (if 400 \<le> status \<and> status < 600 then Inl RequestException else Inr ())"

text \<open>The body of the loop for one \<open>item\<close>; \<open>Inl\<close> is an exception that leaves the loop.\<close>

definition process_item :: "env \<Rightarrow> node \<Rightarrow> world \<Rightarrow> (exn + unit) \<times> world" where
  "process_item e item w =
     (case find_text ''title'' item of Inl x \<Rightarrow> (Inl x, w) | Inr title \<Rightarrow>
      case find_text ''link'' item of Inl x \<Rightarrow> (Inl x, w) | Inr link \<Rightarrow>
      case find_text ''pubDate'' item of Inl x \<Rightarrow> (Inl x, w) | Inr pub_date \<Rightarrow>
        let number = cve_number_of title;
            (known, w1) = cve_exists e number w
        in if known then (Inr (), print (Skipping number) w1)
           else (case requests_get e link w1 of
                   (Inl x, w2) \<Rightarrow> (Inl x, w2)
                 | (Inr (status, page), w2) \<Rightarrow>
                     (case raise_for_status status of
                        Inl x \<Rightarrow> (Inl x, w2)
                      | Inr u \<Rightarrow>
                          (case cve_details_of e title link pub_date number page of
                             Inl x \<Rightarrow> (Inl x, w2)
                           | Inr d \<Rightarrow>
                               (let (ok, w3) = insert_cve_to_db e d w2
                                in (Inr (), if ok then print (Processed number) w3 else w3))))))"

fun process_items :: "env \<Rightarrow> node list \<Rightarrow> world \<Rightarrow> (exn + unit) \<times> world" where
  "process_items e [] w = (Inr (), w)"
| "process_items e (item # items) w =
     (case process_item e item w of
        (Inl x, w1) \<Rightarrow> (Inl x, w1)
      | (Inr u, w1) \<Rightarrow> process_items e items w1)"

text \<open>The two handlers that close the \<open>try\<close> block around the whole function body.\<close>

definition handler :: "exn \<Rightarrow> world \<Rightarrow> world" where
  "handler x w = print (if x = RequestException then ErrFeed else ErrUnexpected x) w"

definition fetch_and_process_cve :: "env \<Rightarrow> world \<Rightarrow> world" where
  "fetch_and_process_cve e w =
     (case requests_get e feed_url w of
        (Inl x, w1) \<Rightarrow> handler x w1
      | (Inr (status, soup), w1) \<Rightarrow>
          (case raise_for_status status of
             Inl x \<Rightarrow> handler x w1
           | Inr u \<Rightarrow>
               (case process_items e (find_all ''item'' soup) w1 of
                  (Inl x, w2) \<Rightarrow> handler x w2
                | (Inr u, w2) \<Rightarrow> w2)))"


section \<open>Notions used to state the properties\<close>

text \<open>All the nodes of a document, in document order.\<close>

fun nodes_of :: "node list \<Rightarrow> node list" where
  "nodes_of [] = []"
| "nodes_of (Text s # ns) = Text s # nodes_of ns"
| "nodes_of (Comment s # ns) = Comment s # nodes_of ns"
| "nodes_of (Tag n cs # ns) = Tag n cs # nodes_of cs @ nodes_of ns"

text \<open>
  Where a node stands: \<open>at_place c r doc b\<close> says that \<open>c\<close> occurs in the document \<open>doc\<close>, that
  \<open>r\<close> lists the siblings that follow it and \<open>b\<close> the nodes that come before it in document
  order.
\<close>

inductive at_place :: "node \<Rightarrow> node list \<Rightarrow> node list \<Rightarrow> node list \<Rightarrow> bool"
  for c :: node and r :: "node list" where
  here: "at_place c r (l @ c # r) (nodes_of l)"
| inside: "at_place c r cs b \<Longrightarrow> at_place c r (l @ Tag n cs # rs) (nodes_of l @ Tag n cs # b)"

text \<open>
  A node whose only content is the string \<open>s\<close>: a string, or a tag whose single child is
  such a node. A \<open>td\<close>, and a \<open>td\<close> whose only content is the string \<open>Description\<close>.
\<close>

inductive only_string :: "node \<Rightarrow> string \<Rightarrow> bool" where
  "only_string (Text s) s"
| "only_string (Comment s) s"
| "only_string c s \<Longrightarrow> only_string (Tag n [c]) s"

definition is_td :: "node \<Rightarrow> bool" where
  "is_td t \<longleftrightarrow> (\<exists>cs. t = Tag ''td'' cs)"

definition description_td :: "node \<Rightarrow> bool" where
  "description_td t \<longleftrightarrow> is_td t \<and> only_string t ''Description''"

text \<open>The text of a node: the text nodes in it, in document order, one after the other.\<close>

fun own_text :: "node \<Rightarrow> string" where
  "own_text (Text s) = s"
| "own_text (Comment s) = []"
| "own_text (Tag n cs) = []"

definition text_of :: "node \<Rightarrow> string" where
  "text_of t = concat (map own_text (nodes_of [t]))"

text \<open>
  \<open>trimmed_of s t\<close>: \<open>t\<close> is \<open>s\<close> without the whitespace at its two ends. \<open>nl_replaced s t\<close>: \<open>t\<close>
  is \<open>s\<close> with a space in the place of every newline.
\<close>

definition trimmed_of :: "string \<Rightarrow> string \<Rightarrow> bool" where
  "trimmed_of s t \<longleftrightarrow>
     (\<exists>a b. s = a @ t @ b \<and> list_all is_space a \<and> list_all is_space b) \<and>
     (t = [] \<or> (\<not> is_space (hd t) \<and> \<not> is_space (last t)))"

definition nl_replaced :: "string \<Rightarrow> string \<Rightarrow> bool" where
  "nl_replaced s t \<longleftrightarrow>
     length t = length s \<and>
     (\<forall>i < length s. t ! i = (if s ! i = CHR 0x0A then CHR '' '' else s ! i))"

text \<open>Example data: an environment whose \<open>unescape\<close> changes nothing, and detail pages.\<close>

definition plain_env :: env where
  "plain_env = \<lparr>http = (\<lambda>t url. NetworkError), db_ok = (\<lambda>t. True), unescape = (\<lambda>s. s)\<rparr>"

definition example_page :: "node list" where
  "example_page =
     [Tag ''html'' [Tag ''body'' [Tag ''table'' [
        Tag ''tr'' [Tag ''td'' [Text ''Published''], Tag ''td'' [Text ''today'']],
        Tag ''tr'' [Tag ''td'' [Tag ''b'' [Text ''Description'']], Text [CHR 0x0A],
                   Tag ''td'' [Text ('' Severity: 7.5 | High.'' @ [CHR 0x0A] @ ''Some details. '')]]]]]]"

definition page_without_sibling :: "node list" where
  "page_without_sibling = [Tag ''table'' [Tag ''tr'' [Tag ''td'' [Text ''Description'']]]]"

definition page_with_br :: "node list" where
  "page_with_br =
     [Tag ''tr'' [Tag ''td'' [Text ''Description'', Tag ''br'' []], Tag ''td'' [Text ''x'']]]"

definition page_with_comment :: "node list" where
  "page_with_comment =
     [Tag ''tr'' [Tag ''td'' [Comment ''Description''],
                 Tag ''td'' [Text ''a'', Comment ''c'', Text ''b'']]]"

text \<open>
  The identifiers in the table, row by row; the states of the store that the operations of
  the program reach from a database without the table, whatever the outside answers; and
  \<open>extends w w'\<close>: every row of \<open>w\<close> is still in \<open>w'\<close>, at its place and as it was.
\<close>

definition row_ids :: "world \<Rightarrow> string list" where
  "row_ids w = (case table w of None \<Rightarrow> [] | Some rows \<Rightarrow> map cve_number rows)"

inductive reachable :: "env \<Rightarrow> world \<Rightarrow> bool" for e :: env where
  fresh: "table w = None \<Longrightarrow> reachable e w"
| created: "reachable e w \<Longrightarrow> reachable e (snd (create_cve_table e w))"
| inserted: "reachable e w \<Longrightarrow> reachable e (snd (insert_cve_to_db e d w))"
| checked: "reachable e w \<Longrightarrow> reachable e (snd (cve_exists e n w))"
| ran: "reachable e w \<Longrightarrow> reachable e (fetch_and_process_cve e w)"

definition extends :: "world \<Rightarrow> world \<Rightarrow> bool" where
  "extends w w' = (case table w of None \<Rightarrow> True
     | Some rows \<Rightarrow> (\<exists>more. table w' = Some (rows @ more)))"

definition unique_ids :: "world \<Rightarrow> bool" where
  "unique_ids w = distinct (row_ids w)"

text \<open>A world without the table, a record, and the world after creating the table and storing it.\<close>

definition fresh_world :: world where
  "fresh_world = \<lparr>table = None, out = [], requests = [], clock = 0\<rparr>"

definition example_record :: cve_record where
  "example_record = \<lparr>cve_number = ''CVE-2024-1234'', cve_name = ''Example Flaw'',
     cve_description = ''Severity: 7.5 | High. Some details.'', cve_pubdate = ''D'',
     cve_link = ''L'', cve_severity = Some ''7.5''\<rparr>"

definition stored_world :: world where
  "stored_world = \<lparr>table = Some [example_record], out = [TableReady, Inserted ''CVE-2024-1234''],
     requests = [], clock = 5\<rparr>"

text \<open>
  The texts that a pattern matches, without regard to the order in which a matcher tries
  them, and the group numbers that occur in a pattern.
\<close>

inductive matches :: "rx \<Rightarrow> string \<Rightarrow> bool" where
  m_eps: "matches Eps []"
| m_atom: "in_cls c x \<Longrightarrow> matches (Atom c) [x]"
| m_cat: "matches a u \<Longrightarrow> matches b v \<Longrightarrow> matches (Cat a b) (u @ v)"
| m_opt_none: "matches (Opt a) []"
| m_opt_some: "matches a u \<Longrightarrow> matches (Opt a) u"
| m_star_nil: "matches (Star a) []"
| m_star_step: "matches a u \<Longrightarrow> matches (Star a) v \<Longrightarrow> matches (Star a) (u @ v)"
| m_grp: "matches a u \<Longrightarrow> matches (Grp n a) u"


text \<open>
  The texts of the form \<open>CVE-\d{4}-\d{4,}\<close>, and the texts of the form
  \<open>Severity:\s*(\d+(\.\d+)?)\s*\|\s*(\w+)\<close> together with their numeric part.
\<close>

definition is_cve_id :: "string \<Rightarrow> bool" where
  "is_cve_id m \<longleftrightarrow>
     (\<exists>a b. m = ''CVE-'' @ a @ ''-'' @ b \<and> length a = 4 \<and> list_all is_digit a \<and>
            4 \<le> length b \<and> list_all is_digit b)"







text \<open>
  A tag with a given name; the field \<open>nm\<close> of a feed entry: the text of the first tag of
  that name inside the entry, in document order; and an entry with its three fields.
\<close>

definition named :: "string \<Rightarrow> node \<Rightarrow> bool" where
  "named nm t \<longleftrightarrow> (\<exists>cs. t = Tag nm cs)"













section \<open>The matcher finds exactly the matches, leftmost first\<close>

lemmas ms_star = ms.simps(5)
declare ms.simps(5) [simp del]
declare re_search.simps [simp del]

lemma ms_star_iff:
  "(s', g') \<in> set (ms (Star a) (s, g)) \<longleftrightarrow>
     (s' = s \<and> g' = g) \<or>
     (\<exists>s1 g1. (s1, g1) \<in> set (ms a (s, g)) \<and> length s1 < length s \<and>
        (s', g') \<in> set (ms (Star a) (s1, g1)))"
  by (subst ms_star) (auto split: if_splits)



lemma ms_sound:
  "(s', g') \<in> set (ms r (s, g)) \<Longrightarrow> \<exists>u. s = u @ s' \<and> matches r u"
proof (induction r "(s, g)" arbitrary: s g s' g' rule: ms.induct)
  case 1
  then show ?case by (auto intro: matches.intros)
next
  case (2 c s g)
  then show ?case by (auto split: list.splits if_splits intro: matches.intros)
next
  case (3 a b)
  from "3.prems" obtain s1 g1 where a: "(s1, g1) \<in> set (ms a (s, g))"
    and b: "(s', g') \<in> set (ms b (s1, g1))" by auto
  from "3.hyps"(1)[OF a] obtain u where u: "s = u @ s1" "matches a u" by blast
  from "3.hyps"(2)[OF a b] obtain v where v: "s1 = v @ s'" "matches b v" by blast
  from u v show ?case by (auto intro: matches.intros)
next
  case (4 a)
  from "4.prems" have "s' = s \<or> (s', g') \<in> set (ms a (s, g))" by auto
  then show ?case
  proof
    assume "s' = s"
    then show ?thesis by (auto intro: matches.intros)
  next
    assume "(s', g') \<in> set (ms a (s, g))"
    from "4.hyps"[OF this] show ?thesis by (blast intro: matches.intros)
  qed
next
  case (5 a s g)
  from "5.prems" consider (stop) "s' = s" "g' = g"
    | (iter) s1 g1 where "(s1, g1) \<in> set (ms a (s, g))" "length s1 < length s"
        "(s', g') \<in> set (ms (Star a) (s1, g1))"
    unfolding ms_star_iff[of s' g' a s g] by blast
  then show ?case
  proof cases
    case stop
    then show ?thesis by (auto intro: matches.intros)
  next
    case iter
    from "5.hyps"(1)[OF iter(1)] obtain u where u: "s = u @ s1" "matches a u" by blast
    from "5.hyps"(2)[OF iter(1) refl iter(2) iter(3)] obtain v
      where v: "s1 = v @ s'" "matches (Star a) v" by blast
    from u v show ?thesis by (auto intro: matches.intros)
  qed
next
  case (6 n a s g)
  from "6.prems" obtain g1 where "(s', g1) \<in> set (ms a (s, g))" by auto
  from "6.hyps"[OF this] show ?case by (blast intro: matches.intros)
qed

lemma ms_complete:
  "matches r u \<Longrightarrow> \<exists>g'. (s', g') \<in> set (ms r (u @ s', g))"
proof (induction r u arbitrary: s' g rule: matches.induct)
  case (m_cat a u b v)
  from m_cat.IH(1)[of "v @ s'" g] obtain g1
    where 1: "(v @ s', g1) \<in> set (ms a (u @ v @ s', g))" by blast
  from m_cat.IH(2)[of s' g1] obtain g2 where 2: "(s', g2) \<in> set (ms b (v @ s', g1))" by blast
  from 1 2 show ?case by auto
next
  case (m_star_nil a)
  show ?case using ms_star_iff[of s' g a s' g] by auto
next
  case (m_star_step a u v)
  show ?case
  proof (cases "u = []")
    case True
    with m_star_step.IH(2)[of s' g] show ?thesis by simp
  next
    case False
    from m_star_step.IH(1)[of "v @ s'" g] obtain g1
      where 1: "(v @ s', g1) \<in> set (ms a (u @ v @ s', g))" by blast
    from m_star_step.IH(2)[of s' g1] obtain g2
      where 2: "(s', g2) \<in> set (ms (Star a) (v @ s', g1))" by blast
    from False have "length (v @ s') < length (u @ v @ s')" by simp
    with 1 2 have "(s', g2) \<in> set (ms (Star a) (u @ v @ s', g))"
      unfolding ms_star_iff[of s' g2 a "u @ v @ s'" g] by blast
    then show ?thesis by auto
  qed
next
  case (m_grp a u n)
  from m_grp.IH[of s' g] obtain g1 where "(s', g1) \<in> set (ms a (u @ s', g))" by blast
  then show ?case by (force simp: image_iff)
qed (auto)

lemma ms_Nil_iff: "ms r (s, g) = [] \<longleftrightarrow> (\<forall>m q. s = m @ q \<longrightarrow> \<not> matches r m)"
proof
  assume e: "ms r (s, g) = []"
  show "\<forall>m q. s = m @ q \<longrightarrow> \<not> matches r m"
  proof (intro allI impI notI)
    fix m q assume "s = m @ q" "matches r m"
    with ms_complete[of r m q g] e show False by auto
  qed
next
  assume n: "\<forall>m q. s = m @ q \<longrightarrow> \<not> matches r m"
  show "ms r (s, g) = []"
  proof (cases "ms r (s, g)")
    case Nil
    then show ?thesis .
  next
    case (Cons x xs)
    obtain s' g' where "x = (s', g')" by (cases x)
    with Cons have "(s', g') \<in> set (ms r (s, g))" by simp
    from ms_sound[OF this] n show ?thesis by blast
  qed
qed


lemma re_search_None_iff:
  "re_search r s = None \<longleftrightarrow> (\<forall>p m q. s = p @ m @ q \<longrightarrow> \<not> matches r m)"
proof (induction s)
  case Nil
  have "re_search r [] = None \<longleftrightarrow> ms r ([], Map.empty) = []"
    by (subst re_search.simps) (auto split: list.splits)
  then show ?case by (simp add: ms_Nil_iff)
next
  case (Cons c s)
  have 1: "re_search r (c # s) = None \<longleftrightarrow> ms r (c # s, Map.empty) = [] \<and> re_search r s = None"
    by (subst re_search.simps) (auto split: list.splits)
  have 2: "(\<forall>p m q. c # s = p @ m @ q \<longrightarrow> \<not> matches r m) \<longleftrightarrow>
      (\<forall>m q. c # s = m @ q \<longrightarrow> \<not> matches r m) \<and> (\<forall>p m q. s = p @ m @ q \<longrightarrow> \<not> matches r m)"
  proof (intro iffI conjI allI impI)
    fix m q assume "\<forall>p m q. c # s = p @ m @ q \<longrightarrow> \<not> matches r m" "c # s = m @ q"
    then show "\<not> matches r m" by (metis append_Nil)
  next
    fix p m q assume a: "\<forall>p m q. c # s = p @ m @ q \<longrightarrow> \<not> matches r m" "s = p @ m @ q"
    then have "c # s = (c # p) @ m @ q" by simp
    with a(1) show "\<not> matches r m" by blast
  next
    fix p m q
    assume a: "(\<forall>m q. c # s = m @ q \<longrightarrow> \<not> matches r m) \<and>
        (\<forall>p m q. s = p @ m @ q \<longrightarrow> \<not> matches r m)" and b: "c # s = p @ m @ q"
    show "\<not> matches r m"
    proof (cases p)
      case Nil
      with a b show ?thesis by simp
    next
      case (Cons x p')
      with b have "s = p' @ m @ q" by simp
      with a show ?thesis by blast
    qed
  qed
  from 1 2 Cons show ?case by (simp add: ms_Nil_iff)
qed

lemma re_search_Some:
  "re_search r s = Some (m, g) \<Longrightarrow>
     \<exists>p q rest. s = p @ m @ q \<and> ms r (m @ q, Map.empty) = (q, g) # rest \<and>
       (\<forall>p' m' q'. s = p' @ m' @ q' \<and> matches r m' \<longrightarrow> length p \<le> length p')"
proof (induction s)
  case Nil
  from Nil obtain s' rest where h: "ms r ([], Map.empty) = (s', g) # rest"
    "m = take (length ([]::string) - length s') []"
    by (subst (asm) re_search.simps) (auto split: list.splits)
  then have "(s', g) \<in> set (ms r ([], Map.empty))" by simp
  from ms_sound[OF this] have "s' = []" by simp
  with h show ?case by simp
next
  case (Cons c s)
  show ?case
  proof (cases "ms r (c # s, Map.empty)")
    case Nil
    with Cons.prems have "re_search r s = Some (m, g)"
      by (subst (asm) re_search.simps) simp
    from Cons.IH[OF this] obtain p q rest where
      pq: "s = p @ m @ q" "ms r (m @ q, Map.empty) = (q, g) # rest"
          "\<forall>p' m' q'. s = p' @ m' @ q' \<and> matches r m' \<longrightarrow> length p \<le> length p'" by blast
    have "\<forall>p' m' q'. c # s = p' @ m' @ q' \<and> matches r m' \<longrightarrow> length (c # p) \<le> length p'"
    proof (intro allI impI)
      fix p' m' q' assume a: "c # s = p' @ m' @ q' \<and> matches r m'"
      show "length (c # p) \<le> length p'"
      proof (cases p')
        case Nil
        with a have "c # s = m' @ q'" "matches r m'" by simp_all
        with \<open>ms r (c # s, Map.empty) = []\<close> show ?thesis by (simp add: ms_Nil_iff)
      next
        case (Cons x p'')
        with a have "s = p'' @ m' @ q'" "matches r m'" by simp_all
        with pq(3) Cons show ?thesis by auto
      qed
    qed
    moreover from pq(1) have "c # s = (c # p) @ m @ q" by simp
    ultimately show ?thesis using pq(2) by blast
  next
    case (Cons x rest)
    obtain s' g' where x: "x = (s', g')" by (cases x)
    with Cons Cons.prems have mg: "m = take (length (c # s) - length s') (c # s)" "g' = g"
      by (subst (asm) re_search.simps, simp)+
    from Cons x have "(s', g') \<in> set (ms r (c # s, Map.empty))" by simp
    from ms_sound[OF this] obtain u where u: "c # s = u @ s'" by blast
    with mg have "m = u" by simp
    with u Cons x mg have "c # s = [] @ m @ s'" "ms r (m @ s', Map.empty) = (s', g) # rest"
      by simp_all
    then show ?thesis by (metis le0 list.size(3))
  qed
qed

section \<open>The identifier: first match of the CVE pattern\<close>

inductive_cases matches_EpsE: "matches Eps u"
inductive_cases matches_AtomE: "matches (Atom c) u"
inductive_cases matches_CatE: "matches (Cat a b) u"

lemma matches_Eps [simp]: "matches Eps u \<longleftrightarrow> u = []"
  by (auto elim: matches_EpsE intro: matches.intros)

lemma matches_Atom [simp]: "matches (Atom c) u \<longleftrightarrow> (\<exists>x. u = [x] \<and> in_cls c x)"
  by (auto elim: matches_AtomE intro: matches.intros)

lemma matches_Cat: "matches (Cat a b) u \<longleftrightarrow> (\<exists>v w. u = v @ w \<and> matches a v \<and> matches b w)"
proof
  assume "matches (Cat a b) u"
  then show "\<exists>v w. u = v @ w \<and> matches a v \<and> matches b w" by (rule matches_CatE) blast
next
  assume "\<exists>v w. u = v @ w \<and> matches a v \<and> matches b w"
  then show "matches (Cat a b) u" by (auto intro: matches.intros)
qed



lemma matches_lit: "matches (lit w) u \<longleftrightarrow> u = w"
  by (induction w arbitrary: u) (auto simp: matches_Cat)

lemma matches_rep_atom:
  "matches (rep n (Atom c)) u \<longleftrightarrow> length u = n \<and> list_all (in_cls c) u"
proof (induction n arbitrary: u)
  case 0
  then show ?case by auto
next
  case (Suc n)
  show ?case
  proof
    assume "matches (rep (Suc n) (Atom c)) u"
    then obtain x w where "u = x # w" "in_cls c x" "matches (rep n (Atom c)) w"
      by (auto simp: matches_Cat)
    with Suc[of w] show "length u = Suc n \<and> list_all (in_cls c) u" by simp
  next
    assume a: "length u = Suc n \<and> list_all (in_cls c) u"
    then obtain x w where u: "u = x # w" by (cases u) auto
    with a Suc[of w] have "in_cls c x" "matches (rep n (Atom c)) w" by simp_all
    with u have "u = [x] @ w \<and> matches (Atom c) [x] \<and> matches (rep n (Atom c)) w" by simp
    then show "matches (rep (Suc n) (Atom c)) u" unfolding rep.simps matches_Cat by blast
  qed
qed

lemma matches_star_atom_only:
  "matches r u \<Longrightarrow> r = Star (Atom c) \<Longrightarrow> list_all (in_cls c) u"
  by (induction r u rule: matches.induct) auto

lemma matches_star_atom: "matches (Star (Atom c)) u \<longleftrightarrow> list_all (in_cls c) u"
proof
  assume "matches (Star (Atom c)) u"
  then show "list_all (in_cls c) u" by (rule matches_star_atom_only) simp
next
  assume "list_all (in_cls c) u"
  then show "matches (Star (Atom c)) u"
  proof (induction u)
    case Nil
    show ?case by (rule matches.m_star_nil)
  next
    case (Cons x u)
    then have "matches (Atom c) [x]" "matches (Star (Atom c)) u" by simp_all
    then have "matches (Star (Atom c)) ([x] @ u)" by (rule matches.m_star_step)
    then show ?case by simp
  qed
qed


lemma matches_cve_rx: "matches cve_rx m \<longleftrightarrow> is_cve_id m"
proof
  assume "matches cve_rx m"
  then obtain a b1 b2 where m: "m = ''CVE-'' @ a @ ''-'' @ b1 @ b2"
    and a': "length a = 4" "list_all (in_cls Digit) a"
    and b': "length b1 = 4" "list_all (in_cls Digit) b1" "list_all (in_cls Digit) b2"
    unfolding cve_rx_def matches_Cat matches_lit matches_rep_atom matches_star_atom
    by auto
  have eq: "in_cls Digit = is_digit" by (rule ext) simp
  from a' b' have a: "length a = 4" "list_all is_digit a"
    and b: "length b1 = 4" "list_all is_digit b1" "list_all is_digit b2"
    by (simp_all add: eq)
  from b have "4 \<le> length (b1 @ b2)" "list_all is_digit (b1 @ b2)" by simp_all
  with m a show "is_cve_id m" unfolding is_cve_id_def by blast
next
  assume "is_cve_id m"
  then obtain a b where m: "m = ''CVE-'' @ a @ ''-'' @ b"
    and a: "length a = 4" "list_all is_digit a"
    and b: "4 \<le> length b" "list_all is_digit b"
    unfolding is_cve_id_def by blast
  from b have b1: "length (take 4 b) = 4" "list_all is_digit (take 4 b)"
    and b2: "list_all is_digit (drop 4 b)"
    by (auto simp: list_all_iff dest: in_set_takeD in_set_dropD)
  have 1: "matches (lit ''CVE-'') ''CVE-''" "matches (lit ''-'') ''-''"
    by (simp_all only: matches_lit)
  have eq: "in_cls Digit = is_digit" by (rule ext) simp
  from a have 2: "matches (rep 4 (Atom Digit)) a" by (simp only: matches_rep_atom eq)
  from b1 have 3: "matches (rep 4 (Atom Digit)) (take 4 b)" by (simp only: matches_rep_atom eq)
  from b2 have 4: "matches (Star (Atom Digit)) (drop 4 b)" by (simp only: matches_star_atom eq)
  from 3 4 have "matches (Cat (rep 4 (Atom Digit)) (Star (Atom Digit))) (take 4 b @ drop 4 b)"
    by (rule matches.m_cat)
  then have 5: "matches (Cat (rep 4 (Atom Digit)) (Star (Atom Digit))) b" by simp
  from 1(2) 5 have 6: "matches (Cat (lit ''-'') (Cat (rep 4 (Atom Digit)) (Star (Atom Digit)))) (''-'' @ b)"
    by (rule matches.m_cat)
  from 2 6 have 7: "matches (Cat (rep 4 (Atom Digit)) (Cat (lit ''-'')
      (Cat (rep 4 (Atom Digit)) (Star (Atom Digit))))) (a @ ''-'' @ b)"
    by (rule matches.m_cat)
  from 1(1) 7 have "matches cve_rx (''CVE-'' @ a @ ''-'' @ b)"
    unfolding cve_rx_def by (rule matches.m_cat)
  with m show "matches cve_rx m" by simp
qed

lemma ms_lit:
  "ms (lit w) (s, g) = (if prefix w s then [(drop (length w) s, g)] else [])"
proof (induction w arbitrary: s)
  case Nil
  then show ?case by simp
next
  case (Cons c w)
  show ?case
  proof (cases s)
    case Nil
    then show ?thesis by simp
  next
    case (Cons x xs)
    with Cons.IH[of xs] show ?thesis by simp
  qed
qed

lemma ms_rep_atom:
  "ms (rep n (Atom c)) (s, g) =
     (if n \<le> length s \<and> list_all (in_cls c) (take n s) then [(drop n s, g)] else [])"
proof (induction n arbitrary: s)
  case 0
  then show ?case by simp
next
  case (Suc n)
  show ?case
  proof (cases s)
    case Nil
    then show ?thesis by simp
  next
    case (Cons x xs)
    with Suc[of xs] show ?thesis by simp
  qed
qed

lemma ms_star_atom_hd:
  "\<exists>rest. ms (Star (Atom c)) (s, g) = (dropWhile (in_cls c) s, g) # rest"
proof (induction s)
  case Nil
  show ?case by (subst ms_star) simp
next
  case (Cons x xs)
  show ?case
  proof (cases "in_cls c x")
    case True
    from Cons obtain rest where "ms (Star (Atom c)) (xs, g) = (dropWhile (in_cls c) xs, g) # rest"
      by blast
    with True show ?thesis by (subst ms_star) simp
  next
    case False
    then show ?thesis by (subst ms_star) simp
  qed
qed

lemma ms_cat_hd_det:
  assumes "ms (Cat a b) st = y # ys" "length (ms a st) \<le> 1"
  shows "\<exists>x. ms a st = [x] \<and> ms b x = y # ys"
proof (cases "ms a st")
  case Nil
  with assms(1) show ?thesis by simp
next
  case (Cons x xs)
  with assms(2) have "xs = []" by simp
  with Cons assms(1) show ?thesis by simp
qed

lemma ms_lit_det: "length (ms (lit w) st) \<le> 1"
  by (cases st) (simp add: ms_lit)

lemma ms_rep_atom_det: "length (ms (rep n (Atom c)) st) \<le> 1"
  by (cases st) (simp add: ms_rep_atom)

lemma ms_cve_rx_hd:
  assumes "ms cve_rx (s, g) = (s', g') # rest"
  shows "s' = [] \<or> \<not> is_digit (hd s')"
proof -
  from assms ms_cat_hd_det[OF _ ms_lit_det] obtain x1 where
    "ms (Cat (rep 4 (Atom Digit)) (Cat (lit ''-'') (Cat (rep 4 (Atom Digit)) (Star (Atom Digit)))))
       x1 = (s', g') # rest"
    unfolding cve_rx_def by blast
  from ms_cat_hd_det[OF this ms_rep_atom_det] obtain x2 where
    "ms (Cat (lit ''-'') (Cat (rep 4 (Atom Digit)) (Star (Atom Digit)))) x2 = (s', g') # rest"
    by blast
  from ms_cat_hd_det[OF this ms_lit_det] obtain x3 where
    "ms (Cat (rep 4 (Atom Digit)) (Star (Atom Digit))) x3 = (s', g') # rest"
    by blast
  from ms_cat_hd_det[OF this ms_rep_atom_det] obtain x4 where
    x4: "ms (Star (Atom Digit)) x4 = (s', g') # rest"
    by blast
  obtain t g4 where "x4 = (t, g4)" by (cases x4)
  with x4 ms_star_atom_hd[of Digit t g4]
  have "s' = dropWhile (in_cls Digit) t" by auto
  then show ?thesis using hd_dropWhile[of "in_cls Digit" t] by auto
qed

lemma is_cve_id_digits:
  assumes "is_cve_id m"
  shows "13 \<le> length m" and "\<And>i. 9 \<le> i \<Longrightarrow> i < length m \<Longrightarrow> is_digit (m ! i)"
proof -
  from assms obtain a b where m: "m = ''CVE-'' @ a @ ''-'' @ b"
    and a: "length a = 4" and b: "4 \<le> length b" "list_all is_digit b"
    unfolding is_cve_id_def by blast
  from m a b show "13 \<le> length m" by simp
  fix i assume i: "9 \<le> i" "i < length m"
  from m a have "m = (''CVE-'' @ a @ ''-'') @ b" "length (''CVE-'' @ a @ ''-'') = 9" by simp_all
  with i have "m ! i = b ! (i - 9)" "i - 9 < length b"
    by (auto simp: nth_append simp del: append.simps append_assoc)
  with b(2) show "is_digit (m ! i)" by (simp add: list_all_length)
qed

lemma cve_match_longest:
  assumes "ms cve_rx (m @ q, g) = (q, g') # rest" "is_cve_id m'" "m @ q = m' @ q'"
  shows "length m' \<le> length m"
proof (rule ccontr)
  assume "\<not> length m' \<le> length m"
  then have l: "length m < length m'" by simp
  have "q \<noteq> []"
  proof
    assume "q = []"
    with assms(3) have "length m = length m' + length q'" by (metis append_Nil2 length_append)
    with l show False by simp
  qed
  from assms(1) have "(q, g') \<in> set (ms cve_rx (m @ q, g))" by simp
  from ms_sound[OF this] obtain u where "m @ q = u @ q" "matches cve_rx u" by blast
  then have "is_cve_id m" by (simp add: matches_cve_rx)
  from is_cve_id_digits(1)[OF this] have lm: "9 \<le> length m" by simp
  from is_cve_id_digits(2)[OF assms(2) lm l] have d: "is_digit (m' ! length m)" .
  from l have "(m' @ q') ! length m = m' ! length m" by (simp add: nth_append)
  with assms(3) have "(m @ q) ! length m = m' ! length m" by simp
  then have "hd q = m' ! length m" using \<open>q \<noteq> []\<close> by (simp add: nth_append hd_conv_nth)
  with d ms_cve_rx_hd[OF assms(1)] \<open>q \<noteq> []\<close> show False by simp
qed

text \<open>
  C4. When no part of the title has the form \<open>CVE-\d{4}-\d{4,}\<close>, the identifier is \<open>"N/A"\<close>.
  When some part \<open>m\<close> of the title has this form, the identifier is a part of the title of
  this form that starts no later than \<open>m\<close> and, when it starts where \<open>m\<close> starts, is at
  least as long: it is the first match.
\<close>

theorem cve_number_is_first_match:
  "((\<forall>p m q. title = p @ m @ q \<longrightarrow> \<not> is_cve_id m) \<longrightarrow> cve_number_of title = ''N/A'') \<and>
   (title = p @ m @ q \<and> is_cve_id m \<longrightarrow>
      (\<exists>p' q'. title = p' @ cve_number_of title @ q' \<and> is_cve_id (cve_number_of title) \<and>
         length p' \<le> length p \<and>
         (length p' = length p \<longrightarrow> length m \<le> length (cve_number_of title))))"
proof (intro conjI impI)
  assume "\<forall>p m q. title = p @ m @ q \<longrightarrow> \<not> is_cve_id m"
  then have "re_search cve_rx title = None"
    by (simp add: re_search_None_iff matches_cve_rx)
  then show "cve_number_of title = ''N/A''" by (simp add: cve_number_of_def)
next
  assume a: "title = p @ m @ q \<and> is_cve_id m"
  then have "re_search cve_rx title \<noteq> None"
    unfolding re_search_None_iff matches_cve_rx by blast
  then obtain n g where s: "re_search cve_rx title = Some (n, g)" by auto
  then have n: "cve_number_of title = n" by (simp add: cve_number_of_def)
  from re_search_Some[OF s] obtain p' q' rest where
    r: "title = p' @ n @ q'" "ms cve_rx (n @ q', Map.empty) = (q', g) # rest"
       "\<forall>p'' m'' q''. title = p'' @ m'' @ q'' \<and> matches cve_rx m'' \<longrightarrow> length p' \<le> length p''"
    by blast
  from r(2) have "(q', g) \<in> set (ms cve_rx (n @ q', Map.empty))" by simp
  from ms_sound[OF this] have id: "is_cve_id n" by (auto simp: matches_cve_rx)
  from r(3)[rule_format, of p m q] a have le: "length p' \<le> length p"
    by (simp add: matches_cve_rx)
  have "length p' = length p \<longrightarrow> length m \<le> length n"
  proof
    assume "length p' = length p"
    with a r(1) have "p' = p" "n @ q' = m @ q" by auto
    with cve_match_longest[OF r(2), of m q] a show "length m \<le> length n" by simp
  qed
  with r(1) id le
  have "title = p' @ n @ q' \<and> is_cve_id n \<and> length p' \<le> length p \<and>
         (length p' = length p \<longrightarrow> length m \<le> length n)" by blast
  then have "\<exists>p' q'. title = p' @ n @ q' \<and> is_cve_id n \<and> length p' \<le> length p \<and>
         (length p' = length p \<longrightarrow> length m \<le> length n)" by blast
  then show "\<exists>p' q'. title = p' @ cve_number_of title @ q' \<and> is_cve_id (cve_number_of title) \<and>
         length p' \<le> length p \<and>
         (length p' = length p \<longrightarrow> length m \<le> length (cve_number_of title))"
    unfolding n .
qed

lemma example_cve_number:
  "cve_number_of ''xx CVE-2024-12345 - F'' = ''CVE-2024-12345''"
  by code_simp

theorem cve_number_is_first_match_witness:
  "cve_number_of ''abc'' = ''N/A'' \<and>
   is_cve_id ''CVE-2024-1234'' \<and>
   (\<exists>p' q'. ''xx CVE-2024-12345 - F'' = p' @ cve_number_of ''xx CVE-2024-12345 - F'' @ q' \<and>
      is_cve_id (cve_number_of ''xx CVE-2024-12345 - F'') \<and> length p' \<le> 3 \<and>
      (length p' = 3 \<longrightarrow> 13 \<le> length (cve_number_of ''xx CVE-2024-12345 - F''))) \<and>
   cve_number_of ''xx CVE-2024-12345 - F'' = ''CVE-2024-12345''"
proof -
  have 1: "\<forall>p m q. ''abc'' = p @ m @ q \<longrightarrow> \<not> is_cve_id m"
  proof (intro allI impI notI)
    fix p m q :: string assume "''abc'' = p @ m @ q" "is_cve_id m"
    from is_cve_id_digits(1)[OF this(2)] this(1) have "13 \<le> length m" "length (p @ m @ q) = 3"
      by (simp_all flip: \<open>''abc'' = p @ m @ q\<close>)
    then show False by simp
  qed
  have "''CVE-2024-1234'' = ''CVE-'' @ ''2024'' @ ''-'' @ ''1234'' \<and> length ''2024'' = 4 \<and>
      list_all is_digit ''2024'' \<and> 4 \<le> length ''1234'' \<and> list_all is_digit ''1234''"
    by (simp add: is_digit_def)
  then have 2: "is_cve_id ''CVE-2024-1234''" unfolding is_cve_id_def by blast
  have 3: "''xx CVE-2024-12345 - F'' = ''xx '' @ ''CVE-2024-1234'' @ ''5 - F''" by simp
  have len: "length ''xx '' = 3" "length ''CVE-2024-1234'' = 13" by simp_all
  note t = cve_number_is_first_match[where title = "''abc''"]
    cve_number_is_first_match[where title = "''xx CVE-2024-12345 - F''" and p = "''xx ''"
      and m = "''CVE-2024-1234''" and q = "''5 - F''"]
  from t(1) 1 have a: "cve_number_of ''abc'' = ''N/A''" by blast
  from t(2) 2 3 have "\<exists>p' q'. ''xx CVE-2024-12345 - F'' = p' @ cve_number_of ''xx CVE-2024-12345 - F'' @ q' \<and>
      is_cve_id (cve_number_of ''xx CVE-2024-12345 - F'') \<and> length p' \<le> length ''xx '' \<and>
      (length p' = length ''xx '' \<longrightarrow>
         length ''CVE-2024-1234'' \<le> length (cve_number_of ''xx CVE-2024-12345 - F''))"
    by blast
  then have b: "\<exists>p' q'. ''xx CVE-2024-12345 - F'' = p' @ cve_number_of ''xx CVE-2024-12345 - F'' @ q' \<and>
      is_cve_id (cve_number_of ''xx CVE-2024-12345 - F'') \<and> length p' \<le> 3 \<and>
      (length p' = 3 \<longrightarrow> 13 \<le> length (cve_number_of ''xx CVE-2024-12345 - F''))"
    by (simp only: len)
  from a 2 b example_cve_number show ?thesis by blast
qed

section \<open>The severity: the number of the first match\<close>















section \<open>The name: text after the first separator\<close>


lemma split_at_first_None: "sep \<noteq> [] \<Longrightarrow> split_at_first sep s = None \<longleftrightarrow> \<not> py_in sep s"
  by (induction s) auto



lemma cve_name_of_split:
  "split_at_first ''- '' title = Some (a, b) \<Longrightarrow> cve_name_of title = Inr b"
  using split_at_first_None[of "''- ''" title]
  by (auto simp: cve_name_of_def py_split1_def py_index_def)



section \<open>The description\<close>

lemma find_first_None_iff:
  assumes "\<And>s. \<not> P (Text s)" "\<And>s. \<not> P (Comment s)"
  shows "find_first P page = None \<longleftrightarrow> (\<forall>t \<in> set (nodes_of page). \<not> P t)"
  using assms by (induction P page rule: find_first.induct) (auto split: option.splits)

lemma find_first_append:
  assumes "\<And>s. \<not> P (Text s)" "\<And>s. \<not> P (Comment s)"
    and "\<forall>t \<in> set (nodes_of l). \<not> P t"
  shows "find_first P (l @ rest) = find_first P rest"
  using assms(3)
proof (induction l)
  case Nil
  then show ?case by simp
next
  case (Cons x l)
  show ?case
  proof (cases x)
    case (Text s)
    with Cons show ?thesis by simp
  next
    case (Comment s)
    with Cons show ?thesis by simp
  next
    case (Tag n cs)
    with Cons.prems have np: "\<not> P (Tag n cs)" "\<forall>t \<in> set (nodes_of cs). \<not> P t"
      "\<forall>t \<in> set (nodes_of l). \<not> P t" by simp_all
    from np(2) have "find_first P cs = None"
      using find_first_None_iff[of P cs, OF assms(1,2)] by blast
    with np Cons.IH Tag show ?thesis by simp
  qed
qed

lemma find_first_at_place:
  assumes "at_place c r doc b" "P c" "\<forall>t \<in> set b. \<not> P t"
    and "\<And>s. \<not> P (Text s)" "\<And>s. \<not> P (Comment s)"
  shows "find_first P doc = Some (c, r)"
  using assms(1,3)
proof (induction rule: at_place.induct)
  case (here l)
  from assms(2,4,5) obtain n cs where c: "c = Tag n cs" by (cases c) auto
  from here have "find_first P (l @ c # r) = find_first P (c # r)"
    by (intro find_first_append assms(4,5))
  with c assms(2) show ?case by simp
next
  case (inside cs b l n rs)
  from inside.prems have np: "\<forall>t \<in> set (nodes_of l). \<not> P t" "\<not> P (Tag n cs)"
    "\<forall>t \<in> set b. \<not> P t" by simp_all
  from np(1) have "find_first P (l @ Tag n cs # rs) = find_first P (Tag n cs # rs)"
    by (intro find_first_append assms(4,5))
  with np(2) inside.IH[OF np(3)] show ?case by simp
qed


lemma nodes_of_append: "nodes_of (xs @ ys) = nodes_of xs @ nodes_of ys"
  by (induction xs rule: nodes_of.induct) auto

lemma at_place_Cons:
  assumes "at_place c r ns b"
  shows "at_place c r (x # ns) (nodes_of [x] @ b)"
  using assms
proof (cases rule: at_place.cases)
  case (here l)
  have "at_place c r ((x # l) @ c # r) (nodes_of (x # l))" by (rule at_place.here)
  moreover have "nodes_of (x # l) = nodes_of [x] @ nodes_of l"
    using nodes_of_append[of "[x]" l] by simp
  ultimately show ?thesis using here by simp
next
  case (inside cs b' l n rs)
  from at_place.inside[OF inside(3), of "x # l" n rs]
  have "at_place c r ((x # l) @ Tag n cs # rs) (nodes_of (x # l) @ Tag n cs # b')" .
  moreover have "nodes_of (x # l) = nodes_of [x] @ nodes_of l"
    using nodes_of_append[of "[x]" l] by simp
  ultimately show ?thesis using inside by simp
qed

lemma find_first_Some_place:
  assumes "\<And>s. \<not> P (Text s)" "\<And>s. \<not> P (Comment s)"
  shows "find_first P doc = Some (c, r) \<Longrightarrow>
     P c \<and> (\<exists>b. at_place c r doc b \<and> (\<forall>t \<in> set b. \<not> P t))"
proof (induction doc rule: nodes_of.induct)
  case 1
  then show ?case by simp
next
  case (2 s ns)
  then obtain b where b: "P c" "at_place c r ns b" "\<forall>t \<in> set b. \<not> P t" by auto
  from at_place_Cons[OF b(2), of "Text s"] b(3) assms(1)[of s]
  have "at_place c r (Text s # ns) (Text s # b) \<and> (\<forall>t \<in> set (Text s # b). \<not> P t)" by simp
  with b(1) show ?case by blast
next
  case (3 s ns)
  then obtain b where b: "P c" "at_place c r ns b" "\<forall>t \<in> set b. \<not> P t" by auto
  from at_place_Cons[OF b(2), of "Comment s"] b(3) assms(2)[of s]
  have "at_place c r (Comment s # ns) (Comment s # b) \<and> (\<forall>t \<in> set (Comment s # b). \<not> P t)"
    by simp
  with b(1) show ?case by blast
next
  case (4 n cs ns)
  show ?case
  proof (cases "P (Tag n cs)")
    case True
    with 4(3) have e: "c = Tag n cs" "r = ns" by simp_all
    have "at_place c r ([] @ c # r) (nodes_of [])" by (rule at_place.here)
    with e True show ?thesis by auto
  next
    case False
    show ?thesis
    proof (cases "find_first P cs")
      case None
      with False 4(3) have f: "find_first P ns = Some (c, r)" by simp
      from 4(2)[OF f] obtain b where
        b: "P c" "at_place c r ns b" "\<forall>t \<in> set b. \<not> P t" by blast
      from None have "\<forall>t \<in> set (nodes_of cs). \<not> P t"
        using find_first_None_iff[of P cs, OF assms] by blast
      with at_place_Cons[OF b(2), of "Tag n cs"] b(3) False
      have "at_place c r (Tag n cs # ns) (nodes_of [Tag n cs] @ b) \<and>
          (\<forall>t \<in> set (nodes_of [Tag n cs] @ b). \<not> P t)" by auto
      with b(1) show ?thesis by blast
    next
      case (Some x)
      with False 4(3) have f: "find_first P cs = Some (c, r)" by simp
      from 4(1)[OF f] obtain b where
        b: "P c" "at_place c r cs b" "\<forall>t \<in> set b. \<not> P t" by blast
      from at_place.inside[OF b(2), of "[]" n ns] b(3) False
      have "at_place c r (Tag n cs # ns) (Tag n cs # b) \<and> (\<forall>t \<in> set (Tag n cs # b). \<not> P t)"
        by simp
      with b(1) show ?thesis by blast
    qed
  qed
qed

lemma find_next_sibling_first:
  assumes "has_name nm sib" "\<forall>t \<in> set l. \<not> has_name nm t"
  shows "find_next_sibling nm (l @ sib # r) = Some sib"
  using assms(2)
proof (induction l)
  case Nil
  from assms(1) show ?case by (cases sib) auto
next
  case (Cons x l)
  then show ?case by (cases x) auto
qed

lemma node_string_iff: "node_string t = Some s \<longleftrightarrow> only_string t s"
proof
  show "node_string t = Some s \<Longrightarrow> only_string t s"
    by (induction t rule: node_string.induct) (auto intro: only_string.intros)
  show "only_string t s \<Longrightarrow> node_string t = Some s"
    by (induction rule: only_string.induct) auto
qed

lemma has_name_td: "has_name ''td'' t \<longleftrightarrow> is_td t"
  by (cases t) (auto simp: is_td_def)

lemma is_description_cell_iff: "is_description_cell t \<longleftrightarrow> description_td t"
  by (simp add: is_description_cell_def description_td_def node_string_iff has_name_td)

lemma concat_get_text: "concat (map get_text ns) = concat (map own_text (nodes_of ns))"
  by (induction ns rule: nodes_of.induct) auto

lemma get_text_text_of: "get_text t = text_of t"
  using concat_get_text[of "[t]"] by (simp add: text_of_def)

lemma not_description_cell_string [simp]:
  "\<not> is_description_cell (Text s)" "\<not> is_description_cell (Comment s)"
  by (simp_all add: is_description_cell_def)

lemma not_description_td_string [simp]:
  "\<not> description_td (Text s)" "\<not> description_td (Comment s)"
  by (simp_all add: description_td_def is_td_def)

lemma cve_name_of_total: "\<exists>name. cve_name_of title = Inr name"
proof (cases "split_at_first ''- '' title")
  case None
  then show ?thesis using split_at_first_None[of "''- ''" title] by (simp add: cve_name_of_def)
next
  case (Some ab)
  then show ?thesis using cve_name_of_split[of title "fst ab" "snd ab"] by simp
qed

lemma cve_details_of_description:
  "clean_description_of e page = Inr desc \<Longrightarrow>
     \<exists>d. cve_details_of e title link pub_date number page = Inr d \<and> cve_description d = desc
       \<and> cve_severity d = severity_of desc \<and> cve_number d = number \<and> cve_pubdate d = pub_date
       \<and> cve_link d = link \<and> cve_name_of title = Inr (cve_name d)"
  using cve_name_of_total[of title] by (auto simp: cve_details_of_def)

lemma cve_details_of_raises_iff:
  "cve_details_of e title link pub_date number page = Inl x \<longleftrightarrow>
     x = AttributeError \<and>
     (\<exists>cell sibs. find_first is_description_cell page = Some (cell, sibs)
        \<and> find_next_sibling ''td'' sibs = None)"
  using cve_name_of_total[of title]
  by (auto simp: cve_details_of_def clean_description_of_def split: option.splits sum.splits)

lemma py_strip_decomp:
  "\<exists>a b. s = a @ py_strip s @ b \<and> list_all is_space a \<and> list_all is_space b"
proof -
  let ?t = "dropWhile is_space s"
  have 1: "s = takeWhile is_space s @ ?t" by simp
  have 2: "rev ?t = takeWhile is_space (rev ?t) @ dropWhile is_space (rev ?t)" by simp
  then have "?t = rev (dropWhile is_space (rev ?t)) @ rev (takeWhile is_space (rev ?t))"
    by (metis rev_append rev_rev_ident)
  then have 3: "?t = py_strip s @ rev (takeWhile is_space (rev ?t))" by (simp add: py_strip_def)
  have 4: "list_all is_space (takeWhile is_space s)"
    by (simp add: list_all_iff) (meson set_takeWhileD)
  have 5: "list_all is_space (rev (takeWhile is_space (rev ?t)))"
    by (simp add: list_all_iff) (meson set_takeWhileD)
  from 1 3 have "s = takeWhile is_space s @ py_strip s @ rev (takeWhile is_space (rev ?t))" by metis
  with 4 5 show ?thesis by blast
qed

lemma py_strip_ends:
  "py_strip s = [] \<or> (\<not> is_space (hd (py_strip s)) \<and> \<not> is_space (last (py_strip s)))"
proof (cases "py_strip s = []")
  case True then show ?thesis by simp
next
  case False
  let ?t = "dropWhile is_space s"
  let ?u = "dropWhile is_space (rev ?t)"
  from False have u: "?u \<noteq> []" by (simp add: py_strip_def)
  then have "\<not> is_space (hd ?u)" by (rule hd_dropWhile)
  with u have l: "\<not> is_space (last (py_strip s))" by (simp add: py_strip_def last_rev)
  have t: "?t \<noteq> []"
  proof
    assume "?t = []"
    then have "?u = []" by (simp only: rev.simps dropWhile.simps)
    with u show False by simp
  qed
  then have ht: "\<not> is_space (hd ?t)" by (rule hd_dropWhile)
  from t have "last (rev ?t) = hd ?t" by (simp add: last_rev)
  with ht have "\<not> is_space (last (rev ?t))" by simp
  moreover have "rev ?t \<noteq> []" using t by simp
  ultimately have "?u = rev ?t \<or> last ?u = last (rev ?t)"
    by (metis append_is_Nil_conv last_appendR takeWhile_dropWhile_id u)
  then have "last ?u = hd ?t" using \<open>last (rev ?t) = hd ?t\<close> by auto
  with u ht have "\<not> is_space (hd (py_strip s))" by (simp add: py_strip_def hd_rev)
  with l show ?thesis by simp
qed

lemma py_strip_pad:
  "list_all is_space a \<Longrightarrow> list_all is_space b \<Longrightarrow> py_strip (a @ s @ b) = py_strip s"
proof -
  assume a: "list_all is_space a" and b: "list_all is_space b"
  from a have 1: "dropWhile is_space (a @ s @ b) = dropWhile is_space (s @ b)"
    by (simp add: list_all_iff dropWhile_append2)
  show ?thesis
  proof (cases "list_all is_space s")
    case True
    with b have "\<forall>x \<in> set (s @ b). is_space x" by (auto simp: list_all_iff)
    then have "dropWhile is_space (s @ b) = []" by (simp only: dropWhile_eq_Nil_conv)
    moreover from True have "dropWhile is_space s = []" by (simp add: list_all_iff)
    ultimately show ?thesis using 1 by (simp only: py_strip_def rev.simps dropWhile.simps)
  next
    case False
    then have ex: "\<exists>x \<in> set s. \<not> is_space x" by (simp add: list_all_iff)
    then obtain x where "x \<in> set s" "\<not> is_space x" by blast
    then have 2: "dropWhile is_space (s @ b) = dropWhile is_space s @ b"
      by (rule dropWhile_append1)
    from b have "dropWhile is_space (rev b @ rev (dropWhile is_space s))
        = dropWhile is_space (rev (dropWhile is_space s))"
      by (intro dropWhile_append2) (auto simp: list_all_iff)
    with 1 2 show ?thesis by (simp add: py_strip_def)
  qed
qed

lemma replace_nl_space: "list_all is_space a \<Longrightarrow> list_all is_space (replace_nl a)"
  by (induction a) (auto simp: replace_nl_def is_space_def)

lemma replace_nl_append: "replace_nl (a @ b) = replace_nl a @ replace_nl b"
  by (simp add: replace_nl_def)

lemma strip_before_unescape:
  assumes "\<And>a s b. list_all is_space a \<Longrightarrow> list_all is_space b \<Longrightarrow> f (a @ s @ b) = a @ f s @ b"
  shows "py_strip (replace_nl (f (py_strip t))) = py_strip (replace_nl (f t))"
proof -
  from py_strip_decomp[of t] obtain a b where
    t: "t = a @ py_strip t @ b" and a: "list_all is_space a" and b: "list_all is_space b" by blast
  from assms[OF a b, of "py_strip t"] t have "f t = a @ f (py_strip t) @ b" by simp
  then have "replace_nl (f t) = replace_nl a @ replace_nl (f (py_strip t)) @ replace_nl b"
    by (simp add: replace_nl_append)
  with py_strip_pad[OF replace_nl_space[OF a] replace_nl_space[OF b]] show ?thesis by simp
qed

lemma trimmed_of_py_strip: "trimmed_of s (py_strip s)"
  unfolding trimmed_of_def using py_strip_decomp[of s] py_strip_ends[of s] by blast

lemma nl_replaced_replace_nl: "nl_replaced s (replace_nl s)"
  by (simp add: nl_replaced_def replace_nl_def)

lemma clean_description_of_place:
  assumes "at_place cell sibs page before" "description_td cell"
    "\<forall>t \<in> set before. \<not> description_td t"
    "sibs = l @ sib # r" "is_td sib" "\<forall>t \<in> set l. \<not> is_td t"
  shows "clean_description_of e page =
     Inr (py_strip (replace_nl (unescape e (py_strip (text_of sib)))))"
proof -
  from assms(1,2,3) have "find_first is_description_cell page = Some (cell, sibs)"
    by (intro find_first_at_place[where b = before]) (simp_all add: is_description_cell_iff)
  moreover from assms(4,5,6) have "find_next_sibling ''td'' sibs = Some sib"
    by (simp add: find_next_sibling_first has_name_td)
  ultimately show ?thesis by (simp add: clean_description_of_def get_text_text_of)
qed

text \<open>
  C5, as the program has it. The cell is found by its string, not by its text: a \<open>td\<close> whose
  only content is the string \<open>Description\<close>. A page without such a \<open>td\<close> gives the description
  \<open>"Description not available."\<close>. When \<open>cell\<close> is the first such \<open>td\<close> in document order and
  \<open>sib\<close> is the first \<open>td\<close> among the siblings that follow it, the description is the text of
  \<open>sib\<close>, trimmed, unescaped, with every newline replaced by a space, and trimmed. The first
  trimming makes no difference when \<open>unescape\<close> leaves the whitespace around a text in place.
\<close>

theorem description_of_detail_page:
  "((\<forall>t \<in> set (nodes_of page). \<not> description_td t) \<longrightarrow>
      (\<exists>d. cve_details_of e title link pub_date number page = Inr d \<and>
           cve_description d = ''Description not available.'')) \<and>
   (at_place cell sibs page before \<and> description_td cell \<and>
    (\<forall>t \<in> set before. \<not> description_td t) \<and>
    sibs = l @ sib # r \<and> is_td sib \<and> (\<forall>t \<in> set l. \<not> is_td t) \<longrightarrow>
      (\<exists>d u1 u3. cve_details_of e title link pub_date number page = Inr d \<and>
           trimmed_of (text_of sib) u1 \<and> nl_replaced (unescape e u1) u3 \<and>
           trimmed_of u3 (cve_description d) \<and>
           ((\<forall>a s b. list_all is_space a \<and> list_all is_space b \<longrightarrow>
                unescape e (a @ s @ b) = a @ unescape e s @ b) \<longrightarrow>
            (\<exists>u. nl_replaced (unescape e (text_of sib)) u \<and>
                 trimmed_of u (cve_description d)))))"
proof (intro conjI impI)
  assume "\<forall>t \<in> set (nodes_of page). \<not> description_td t"
  then have "find_first is_description_cell page = None"
    using find_first_None_iff[of is_description_cell page] by (simp add: is_description_cell_iff)
  then have "clean_description_of e page = Inr ''Description not available.''"
    by (simp add: clean_description_of_def)
  from cve_details_of_description[OF this]
  show "\<exists>d. cve_details_of e title link pub_date number page = Inr d \<and>
           cve_description d = ''Description not available.''" by blast
next
  assume a: "at_place cell sibs page before \<and> description_td cell \<and>
    (\<forall>t \<in> set before. \<not> description_td t) \<and>
    sibs = l @ sib # r \<and> is_td sib \<and> (\<forall>t \<in> set l. \<not> is_td t)"
  let ?u1 = "py_strip (text_of sib)"
  let ?u3 = "replace_nl (unescape e ?u1)"
  from a have "clean_description_of e page = Inr (py_strip ?u3)"
    using clean_description_of_place[of cell sibs page before l sib r e] by blast
  from cve_details_of_description[OF this] obtain d where
    d: "cve_details_of e title link pub_date number page = Inr d"
       "cve_description d = py_strip ?u3"
    by blast
  have 1: "trimmed_of (text_of sib) ?u1" by (rule trimmed_of_py_strip)
  have 2: "nl_replaced (unescape e ?u1) ?u3" by (rule nl_replaced_replace_nl)
  have 3: "trimmed_of ?u3 (cve_description d)" unfolding d(2) by (rule trimmed_of_py_strip)
  have 4: "(\<forall>a s b. list_all is_space a \<and> list_all is_space b \<longrightarrow>
                unescape e (a @ s @ b) = a @ unescape e s @ b) \<longrightarrow>
            (\<exists>u. nl_replaced (unescape e (text_of sib)) u \<and> trimmed_of u (cve_description d))"
  proof
    assume h: "\<forall>a s b. list_all is_space a \<and> list_all is_space b \<longrightarrow>
                unescape e (a @ s @ b) = a @ unescape e s @ b"
    have "py_strip (replace_nl (unescape e (py_strip (text_of sib))))
        = py_strip (replace_nl (unescape e (text_of sib)))"
      by (rule strip_before_unescape) (use h in blast)
    with d(2) have "cve_description d = py_strip (replace_nl (unescape e (text_of sib)))" by simp
    then have "trimmed_of (replace_nl (unescape e (text_of sib))) (cve_description d)"
      by (simp add: trimmed_of_py_strip)
    with nl_replaced_replace_nl[of "unescape e (text_of sib)"]
    show "\<exists>u. nl_replaced (unescape e (text_of sib)) u \<and> trimmed_of u (cve_description d)"
      by blast
  qed
  from d(1) 1 2 3 4
  show "\<exists>d u1 u3. cve_details_of e title link pub_date number page = Inr d \<and>
           trimmed_of (text_of sib) u1 \<and> nl_replaced (unescape e u1) u3 \<and>
           trimmed_of u3 (cve_description d) \<and>
           ((\<forall>a s b. list_all is_space a \<and> list_all is_space b \<longrightarrow>
                unescape e (a @ s @ b) = a @ unescape e s @ b) \<longrightarrow>
            (\<exists>u. nl_replaced (unescape e (text_of sib)) u \<and>
                 trimmed_of u (cve_description d)))" by blast
qed

lemma example_page_details:
  "cve_details_of plain_env ''CVE-2024-1234 - Example Flaw'' ''L'' ''D'' ''CVE-2024-1234''
     example_page = Inr example_record"
  by code_simp

lemma example_page_cell:
  "find_first is_description_cell example_page =
     Some (Tag ''td'' [Tag ''b'' [Text ''Description'']],
           [Text [CHR 0x0A],
            Tag ''td'' [Text ('' Severity: 7.5 | High.'' @ [CHR 0x0A] @ ''Some details. '')]])"
  by (simp add: example_page_def is_description_cell_def)

theorem description_of_detail_page_witness:
  "(\<exists>d. cve_details_of plain_env ''T'' ''L'' ''D'' ''N/A'' [Tag ''p'' [Text ''gone'']] = Inr d \<and>
        cve_description d = ''Description not available.'') \<and>
   (\<exists>d u1 u3. cve_details_of plain_env ''CVE-2024-1234 - Example Flaw'' ''L'' ''D''
          ''CVE-2024-1234'' example_page = Inr d \<and>
        trimmed_of (text_of (Tag ''td''
          [Text ('' Severity: 7.5 | High.'' @ [CHR 0x0A] @ ''Some details. '')])) u1 \<and>
        nl_replaced (unescape plain_env u1) u3 \<and> trimmed_of u3 (cve_description d) \<and>
        cve_description d = ''Severity: 7.5 | High. Some details.'')"
proof -
  let ?sib = "Tag ''td'' [Text ('' Severity: 7.5 | High.'' @ [CHR 0x0A] @ ''Some details. '')]"
  let ?cell = "Tag ''td'' [Tag ''b'' [Text ''Description'']]"
  have 1: "\<forall>t \<in> set (nodes_of [Tag ''p'' [Text ''gone'']]). \<not> description_td t"
    by (simp add: description_td_def is_td_def)
  from find_first_Some_place[OF _ _ example_page_cell] obtain b where
    b: "at_place ?cell [Text [CHR 0x0A], ?sib] example_page b"
       "\<forall>t \<in> set b. \<not> is_description_cell t" by auto
  have c: "description_td ?cell" using example_page_cell find_first_Some_place[OF _ _ example_page_cell]
    by (simp add: is_description_cell_iff)
  have 2: "[Text [CHR 0x0A], ?sib] = [Text [CHR 0x0A]] @ ?sib # []" "is_td ?sib"
    "\<forall>t \<in> set [Text [CHR 0x0A]]. \<not> is_td t" by (simp_all add: is_td_def)
  note t = description_of_detail_page[where page = "[Tag ''p'' [Text ''gone'']]" and e = plain_env
      and title = "''T''" and link = "''L''" and pub_date = "''D''" and number = "''N/A''"]
    description_of_detail_page[where page = example_page and e = plain_env
      and title = "''CVE-2024-1234 - Example Flaw''" and link = "''L''" and pub_date = "''D''"
      and number = "''CVE-2024-1234''" and cell = ?cell and sibs = "[Text [CHR 0x0A], ?sib]"
      and before = b and l = "[Text [CHR 0x0A]]" and sib = ?sib and r = "[]"]
  from t(1) 1 have a: "\<exists>d. cve_details_of plain_env ''T'' ''L'' ''D'' ''N/A''
      [Tag ''p'' [Text ''gone'']] = Inr d \<and> cve_description d = ''Description not available.''"
    by blast
  from b(2) have nb: "\<forall>t \<in> set b. \<not> description_td t" by (simp add: is_description_cell_iff)
  from mp[OF conjunct2[OF t(2)]] b(1) c nb 2 obtain d u1 u3 where
    d: "cve_details_of plain_env ''CVE-2024-1234 - Example Flaw'' ''L'' ''D''
          ''CVE-2024-1234'' example_page = Inr d"
       "trimmed_of (text_of ?sib) u1" "nl_replaced (unescape plain_env u1) u3"
       "trimmed_of u3 (cve_description d)" by blast
  from d(1) have "d = example_record" by (simp add: example_page_details)
  then have "cve_description d = ''Severity: 7.5 | High. Some details.''"
    by (simp add: example_record_def)
  with d a show ?thesis by blast
qed

text \<open>
  With "text" read as \<open>.text\<close> the statement fails both ways: the first page has a \<open>td\<close> whose
  text is \<open>Description\<close> (followed by a \<open>br\<close>) and gets the fallback; the second has no \<open>td\<close>
  with that text (the string is a comment) and gets the text of the next cell.
\<close>

theorem description_text_counterexample:
  "map get_text (filter (has_name ''td'') (nodes_of page_with_br)) = [''Description'', ''x''] \<and>
   cve_details_of plain_env ''T'' ''L'' ''D'' ''N/A'' page_with_br =
     Inr \<lparr>cve_number = ''N/A'', cve_name = ''N/A'',
          cve_description = ''Description not available.'', cve_pubdate = ''D'',
          cve_link = ''L'', cve_severity = None\<rparr> \<and>
   map get_text (filter (has_name ''td'') (nodes_of page_with_comment)) = ['''', ''ab''] \<and>
   cve_details_of plain_env ''T'' ''L'' ''D'' ''N/A'' page_with_comment =
     Inr \<lparr>cve_number = ''N/A'', cve_name = ''N/A'', cve_description = ''ab'',
          cve_pubdate = ''D'', cve_link = ''L'', cve_severity = None\<rparr>"
  by code_simp

text \<open>
  C2. Extraction does not always return a record: on a page whose \<open>Description\<close> cell has no
  \<open>td\<close> after it in its row, \<open>find_next_sibling\<close> gives \<open>None\<close> and reading \<open>.text\<close> raises an
  \<open>AttributeError\<close>. (By \<open>cve_details_of_raises_iff\<close> this is the only way in which it raises.)
\<close>

theorem extraction_raises_without_sibling:
  "cve_details_of e ''CVE-2024-1234 - Example Flaw'' link pub_date ''CVE-2024-1234''
     page_without_sibling = Inl AttributeError"
  by (simp add: cve_details_of_def clean_description_of_def page_without_sibling_def
        is_description_cell_def)

section \<open>The record: severity and name\<close>









section \<open>The record store and the loop: what happens to the table\<close>

lemma tick_simps [simp]:
  "table (tick w) = table w" "out (tick w) = out w" "requests (tick w) = requests w"
  "clock (tick w) = Suc (clock w)"
  by (simp_all add: tick_def)

lemma print_simps [simp]:
  "table (print ev w) = table w" "out (print ev w) = out w @ [ev]"
  "requests (print ev w) = requests w" "clock (print ev w) = clock w"
  by (simp_all add: print_def)

lemma get_db_connection_fields:
  "get_db_connection e w = (b, w1) \<Longrightarrow>
     table w1 = table w \<and> requests w1 = requests w \<and> clock w1 = Suc (clock w) \<and>
     b = db_ok e (clock w) \<and> out w1 = (if b then out w else out w @ [ErrConnect])"
  by (auto simp: get_db_connection_def split: if_splits)

lemma cve_exists_fields:
  "cve_exists e n w = (b, w1) \<Longrightarrow>
     table w1 = table w \<and> requests w1 = requests w \<and> (b \<longrightarrow> n \<in> set (row_ids w))"
  by (auto simp: cve_exists_def get_db_connection_def row_ids_def split: if_splits option.splits)


lemma insert_cve_to_db_fields:
  "insert_cve_to_db e d w = (b, w1) \<Longrightarrow>
     requests w1 = requests w \<and>
     (if b then (\<exists>rows. table w = Some rows \<and> cve_number d \<notin> set (map cve_number rows)
                   \<and> table w1 = Some (rows @ [d]))
      else table w1 = table w)"
  by (auto simp: insert_cve_to_db_def get_db_connection_def Let_def split: if_splits option.splits)

lemma create_cve_table_fields:
  "create_cve_table e w = (b, w1) \<Longrightarrow>
     requests w1 = requests w \<and>
     (table w1 = table w \<or> (table w = None \<and> table w1 = Some []))"
  by (auto simp: create_cve_table_def get_db_connection_def split: if_splits option.splits)

lemma extends_refl: "extends w w"
  by (simp add: extends_def split: option.splits)

lemma extends_same: "table w' = table w \<Longrightarrow> extends w w'"
  by (simp add: extends_def split: option.splits)

lemma extends_trans: "extends w w1 \<Longrightarrow> extends w1 w2 \<Longrightarrow> extends w w2"
  by (auto simp: extends_def split: option.splits)

lemma cve_exists_keeps:
  "unique_ids w \<Longrightarrow> unique_ids (snd (cve_exists e n w))"
  "extends w (snd (cve_exists e n w))"
  using cve_exists_fields[of e n w "fst (cve_exists e n w)" "snd (cve_exists e n w)"]
  by (simp_all add: unique_ids_def row_ids_def extends_same)

lemma insert_cve_to_db_keeps:
  "unique_ids w \<Longrightarrow> unique_ids (snd (insert_cve_to_db e d w))"
  "extends w (snd (insert_cve_to_db e d w))"
  using insert_cve_to_db_fields[of e d w "fst (insert_cve_to_db e d w)" "snd (insert_cve_to_db e d w)"]
  by (auto simp: unique_ids_def row_ids_def extends_def split: if_splits option.splits)

lemma create_cve_table_keeps:
  "unique_ids w \<Longrightarrow> unique_ids (snd (create_cve_table e w))"
  "extends w (snd (create_cve_table e w))"
  using create_cve_table_fields[of e w "fst (create_cve_table e w)" "snd (create_cve_table e w)"]
  by (auto simp: unique_ids_def row_ids_def extends_def split: if_splits option.splits)

lemma requests_get_fields:
  "requests_get e url w = (r, w1) \<Longrightarrow>
     table w1 = table w \<and> out w1 = out w \<and> requests w1 = requests w @ [url] \<and>
     clock w1 = Suc (clock w)"
  by (auto simp: requests_get_def Let_def split: http_result.splits)

lemma process_item_table:
  assumes "process_item e item w = (r, w')"
  shows "table w' = table w \<or>
         (\<exists>rows d. table w = Some rows \<and> cve_number d \<notin> set (map cve_number rows) \<and>
            table w' = Some (rows @ [d]))"
proof -
  consider (a) "w' = w"
    | (b) n w1 where "cve_exists e n w = (True, w1)" "w' = print (Skipping n) w1"
    | (c) n w1 l w2 x where "cve_exists e n w = (False, w1)" "requests_get e l w1 = (x, w2)" "w' = w2"
    | (d) n w1 l w2 x dd ok w3 where "cve_exists e n w = (False, w1)" "requests_get e l w1 = (x, w2)"
        "insert_cve_to_db e dd w2 = (ok, w3)" "w' = (if ok then print (Processed n) w3 else w3)"
    using assms
    by (auto simp: process_item_def Let_def split: sum.splits prod.splits if_splits)
  then show ?thesis
  proof cases
    case a
    then show ?thesis by simp
  next
    case b
    with cve_exists_fields[OF b(1)] show ?thesis by simp
  next
    case c
    with cve_exists_fields[OF c(1)] requests_get_fields[OF c(2)] show ?thesis by simp
  next
    case d
    from cve_exists_fields[OF d(1)] requests_get_fields[OF d(2)]
    have t: "table w2 = table w" by simp
    from insert_cve_to_db_fields[OF d(3)] t d(4) show ?thesis
      by (auto split: if_splits)
  qed
qed

lemma process_item_keeps:
  "unique_ids w \<Longrightarrow> unique_ids (snd (process_item e item w))"
  "extends w (snd (process_item e item w))"
  using process_item_table[of e item w "fst (process_item e item w)" "snd (process_item e item w)"]
  by (auto simp: unique_ids_def row_ids_def extends_def split: option.splits)

lemma process_items_keeps:
  "unique_ids w \<Longrightarrow> unique_ids (snd (process_items e items w))"
  "extends w (snd (process_items e items w))"
proof (induction items arbitrary: w)
  case Nil
  { case 1 then show ?case by simp }
  { case 2 show ?case by (simp add: extends_refl) }
next
  case (Cons item items)
  { case 1
    from process_item_keeps(1)[OF 1, of e item]
    have u: "unique_ids (snd (process_item e item w))" .
    show ?case
    proof (cases "process_item e item w")
      case (Pair r w1)
      with u Cons.IH(1)[of w1] show ?thesis by (cases r) auto
    qed }
  { case 2
    show ?case
    proof (cases "process_item e item w")
      case (Pair r w1)
      with process_item_keeps(2)[of w e item] Cons.IH(2)[of w1] show ?thesis
        by (cases r) (auto intro: extends_trans)
    qed }
qed

lemma handler_fields [simp]:
  "table (handler x w) = table w" "requests (handler x w) = requests w"
  "out (handler x w) = out w @ [if x = RequestException then ErrFeed else ErrUnexpected x]"
  by (simp_all add: handler_def)

lemma fetch_and_process_cve_table:
  "\<exists>items w1. table w1 = table w \<and>
     table (fetch_and_process_cve e w) = table (snd (process_items e items w1))"
proof (cases "requests_get e feed_url w")
  case (Pair r w1)
  note g = requests_get_fields[OF Pair]
  show ?thesis
  proof (cases r)
    case (Inl x)
    with Pair g have "table (fetch_and_process_cve e w) = table (snd (process_items e [] w1))"
      by (simp add: fetch_and_process_cve_def)
    with g show ?thesis by blast
  next
    case (Inr sd)
    obtain st soup where sd: "sd = (st, soup)" by (cases sd)
    show ?thesis
    proof (cases "raise_for_status st")
      case (Inl x)
      with Pair Inr sd g have "table (fetch_and_process_cve e w) = table (snd (process_items e [] w1))"
        by (simp add: fetch_and_process_cve_def)
      with g show ?thesis by blast
    next
      case Inr2: (Inr u)
      with Pair Inr sd have "table (fetch_and_process_cve e w)
          = table (snd (process_items e (find_all ''item'' soup) w1))"
        by (simp add: fetch_and_process_cve_def split: prod.splits sum.splits)
      with g show ?thesis by blast
    qed
  qed
qed

lemma fetch_and_process_cve_keeps:
  "unique_ids w \<Longrightarrow> unique_ids (fetch_and_process_cve e w)"
  "extends w (fetch_and_process_cve e w)"
proof -
  from fetch_and_process_cve_table[of w e] obtain items w1 where
    t: "table w1 = table w"
       "table (fetch_and_process_cve e w) = table (snd (process_items e items w1))" by blast
  { assume "unique_ids w"
    with t(1) have "unique_ids w1" by (simp add: unique_ids_def row_ids_def)
    from process_items_keeps(1)[OF this, of e items] t(2)
    show "unique_ids (fetch_and_process_cve e w)" by (simp add: unique_ids_def row_ids_def) }
  from process_items_keeps(2)[of w1 e items] t
  show "extends w (fetch_and_process_cve e w)" by (auto simp: extends_def split: option.splits)
qed

lemma reachable_unique_ids: "reachable e w \<Longrightarrow> unique_ids w"
proof (induction rule: reachable.induct)
  case (fresh w)
  then show ?case by (simp add: unique_ids_def row_ids_def)
qed (simp_all add: create_cve_table_keeps insert_cve_to_db_keeps cve_exists_keeps
       fetch_and_process_cve_keeps)

lemma insert_duplicate:
  assumes "table w = Some rows" "cve_number d \<in> set (map cve_number rows)"
  shows "insert_cve_to_db e d w =
    (False, print (if \<not> db_ok e (clock w) then ErrConnect
                   else if \<not> db_ok e (Suc (clock w)) then ErrInsert OperationalError
                   else ErrInsert IntegrityError)
              (if db_ok e (clock w) then tick (tick w) else tick w))"
  using assms by (simp add: insert_cve_to_db_def get_db_connection_def)

text \<open>
  C8. In every reachable state the identifiers of the rows are distinct. Inserting a record
  whose identifier is in the table returns \<open>False\<close> and leaves the table as it is; what is
  printed is the duplicate-key error (\<open>IntegrityError\<close>) of the statement, unless the connection
  or the statement itself did not go through. No operation changes or removes a row: after
  each of them the rows that were there are still there, unchanged, before any new one.
\<close>

theorem store_keeps_unique_ids:
  "(reachable e w \<longrightarrow> distinct (row_ids w)) \<and>
   (table w = Some rows \<and> cve_number d \<in> set (map cve_number rows) \<longrightarrow>
      insert_cve_to_db e d w =
        (False, print (if \<not> db_ok e (clock w) then ErrConnect
                       else if \<not> db_ok e (Suc (clock w)) then ErrInsert OperationalError
                       else ErrInsert IntegrityError)
                  (if db_ok e (clock w) then tick (tick w) else tick w)) \<and>
      table (snd (insert_cve_to_db e d w)) = Some rows) \<and>
   extends w (snd (create_cve_table e w)) \<and>
   extends w (snd (insert_cve_to_db e d w)) \<and>
   extends w (snd (cve_exists e n w)) \<and>
   extends w (fetch_and_process_cve e w)"
proof (intro conjI impI)
  assume "reachable e w"
  then show "distinct (row_ids w)" using reachable_unique_ids by (simp add: unique_ids_def)
next
  assume a: "table w = Some rows \<and> cve_number d \<in> set (map cve_number rows)"
  then show i: "insert_cve_to_db e d w =
        (False, print (if \<not> db_ok e (clock w) then ErrConnect
                       else if \<not> db_ok e (Suc (clock w)) then ErrInsert OperationalError
                       else ErrInsert IntegrityError)
                  (if db_ok e (clock w) then tick (tick w) else tick w))"
    using insert_duplicate[of w rows d e] by blast
  from a show "table (snd (insert_cve_to_db e d w)) = Some rows" by (simp add: i)
qed (rule create_cve_table_keeps insert_cve_to_db_keeps cve_exists_keeps
       fetch_and_process_cve_keeps)+

lemma stored_world_reachable:
  "snd (insert_cve_to_db plain_env example_record (snd (create_cve_table plain_env fresh_world)))
     = stored_world"
  by (simp add: insert_cve_to_db_def create_cve_table_def get_db_connection_def plain_env_def
        fresh_world_def stored_world_def example_record_def tick_def print_def)

theorem store_keeps_unique_ids_witness:
  "reachable plain_env stored_world \<and> distinct (row_ids stored_world) \<and>
   row_ids stored_world = [''CVE-2024-1234''] \<and>
   insert_cve_to_db plain_env (example_record\<lparr>cve_name := ''Other''\<rparr>) stored_world =
     (False, print (ErrInsert IntegrityError) (tick (tick stored_world))) \<and>
   table (snd (insert_cve_to_db plain_env (example_record\<lparr>cve_name := ''Other''\<rparr>) stored_world))
     = Some [example_record]"
proof -
  have "reachable plain_env fresh_world" by (rule reachable.fresh) (simp add: fresh_world_def)
  then have r: "reachable plain_env stored_world"
    using stored_world_reachable reachable.created reachable.inserted by metis
  have t: "table stored_world = Some [example_record] \<and>
      cve_number (example_record\<lparr>cve_name := ''Other''\<rparr>) \<in> set (map cve_number [example_record])"
    by (simp add: stored_world_def)
  have ids: "row_ids stored_world = [''CVE-2024-1234'']"
    by (simp add: row_ids_def stored_world_def example_record_def)
  have ok: "db_ok plain_env (clock stored_world)" "db_ok plain_env (Suc (clock stored_world))"
    by (simp_all add: plain_env_def)
  from store_keeps_unique_ids[of plain_env stored_world "[example_record]"
      "example_record\<lparr>cve_name := ''Other''\<rparr>"] r t ok ids
  show ?thesis by simp
qed

section \<open>The loop over the feed entries\<close>


lemma named_simps [simp]:
  "named nm (Tag n cs) \<longleftrightarrow> n = nm" "\<not> named nm (Text s)" "\<not> named nm (Comment s)"
  by (auto simp: named_def)

































end
